theory Spec2Isabelle
  imports Main "HOL-Library.Word" "HOL-Library.AList"
begin

section \<open>The migration index of package source\<close>

text \<open>
  The Go package keeps an in-memory index of migration records. The records are
  reached through pointers (\<^verbatim>\<open>*Migration\<close>), which the index shares with its
  callers, so the model has an explicit store: an address is a natural number, a
  pointer is an optional address (\<open>None\<close> is Go's \<^verbatim>\<open>nil\<close>), and the heap gives the
  record at every address. Go is garbage collected, so every pointer other than
  \<^verbatim>\<open>nil\<close> refers to a live record: the heap is a total function.

  \<^verbatim>\<open>uint\<close> is the 64-bit unsigned integer of the usual platforms; the code only
  compares versions, it never does arithmetic on them. \<^verbatim>\<open>Direction\<close> and
  \<^verbatim>\<open>Status\<close> are string types in the source, with named constants.
\<close>

type_synonym uint = "64 word"

type_synonym Direction = string

definition Down :: Direction where
  "Down = ''down''"

definition Up :: Direction where
  "Up = ''up''"

type_synonym Status = string

definition Skipped :: Status where
  "Skipped = ''skipped''"

definition Pending :: Status where
  "Pending = ''pending''"

definition Done :: Status where
  "Done = ''done''"

definition Failed :: Status where
  "Failed = ''failed''"

record Migration =
  Version :: uint
  Identifier :: string
  Direction :: Direction
  Raw :: string
  Status :: Status
  Error :: string

type_synonym addr = nat

type_synonym ptr = "addr option"

type_synonym heap = "addr \<Rightarrow> Migration"

text \<open>
  \<^verbatim>\<open>map[uint]map[Direction]*Migration\<close>: both maps are association lists with
  \<open>map_of\<close> as the lookup and \<open>AList.update\<close> as the store, so that the keys can be
  enumerated as \<^verbatim>\<open>buildIndex\<close> does. The code never stores a \<^verbatim>\<open>nil\<close> inner map
  or a \<^verbatim>\<open>nil\<close> record, so the values are inner maps and addresses.
\<close>

type_synonym dirmap = "(Direction \<times> addr) list"

type_synonym vermap = "(uint \<times> dirmap) list"

record Migrations =
  index :: "uint list"
  migrations :: vermap

definition NewMigrations :: Migrations where
  "NewMigrations = \<lparr>index = [], migrations = []\<rparr>"

text \<open>
  \<^verbatim>\<open>i.migrations[v]\<close> read as a map value: a missing key gives the \<^verbatim>\<open>nil\<close> map,
  which reads like the empty one.
\<close>

definition inner :: "vermap \<Rightarrow> uint \<Rightarrow> dirmap" where
  "inner ms v = (case map_of ms v of None \<Rightarrow> [] | Some d \<Rightarrow> d)"

text \<open>\<^verbatim>\<open>i.migrations[v][d]\<close>: the record pointer, \<^verbatim>\<open>nil\<close> when either key is missing.\<close>

definition lookup :: "vermap \<Rightarrow> uint \<Rightarrow> Direction \<Rightarrow> ptr" where
  "lookup ms v d = map_of (inner ms v) d"

text \<open>
  \<^verbatim>\<open>buildIndex\<close> collects the keys of the outer map and sorts them. Go ranges over
  a map in no fixed order; the keys are distinct, so the sorted result does not
  depend on it.
\<close>

definition buildIndex :: "Migrations \<Rightarrow> Migrations" where
  "buildIndex i = i\<lparr>index := sort (map fst (migrations i))\<rparr>"

definition Append :: "heap \<Rightarrow> Migrations \<Rightarrow> ptr \<Rightarrow> bool \<times> Migrations" where
  "Append h i m =
     (case m of
        None \<Rightarrow> (False, i)
      | Some a \<Rightarrow>
          let ver = Version (h a);
              dir = Direction (h a);
              i1 = (if map_of (migrations i) ver = None
                    then i\<lparr>migrations := AList.update ver [] (migrations i)\<rparr>
                    else i)
          in if map_of (inner (migrations i1) ver) dir \<noteq> None
             then (False, i1)
             else (True,
                   buildIndex
                     (i1\<lparr>migrations :=
                           AList.update ver (AList.update dir a (inner (migrations i1) ver))
                             (migrations i1)\<rparr>)))"

definition First :: "Migrations \<Rightarrow> uint \<times> bool" where
  "First i = (if length (index i) = 0 then (0, False) else (index i ! 0, True))"


text \<open>
  \<^verbatim>\<open>sort.Search(n, f)\<close> of the Go standard library, as the library writes it: a
  binary search for the least \<open>i\<close> in \<open>[0, n)\<close> with \<open>f i\<close>, \<open>n\<close> when there is
  none. \<^verbatim>\<open>uintSlice.Search\<close> calls it with \<^verbatim>\<open>s[i] >= x\<close>.
\<close>

function Search_loop :: "(nat \<Rightarrow> bool) \<Rightarrow> nat \<Rightarrow> nat \<Rightarrow> nat" where
  "Search_loop f i j =
     (if i < j
      then let h = (i + j) div 2
           in if \<not> f h then Search_loop f (h + 1) j else Search_loop f i h
      else i)"
  by pat_completeness auto
termination
  by (relation "measure (\<lambda>(f, i, j). j - i)") auto

declare Search_loop.simps [simp del]

definition sort_Search :: "nat \<Rightarrow> (nat \<Rightarrow> bool) \<Rightarrow> nat" where
  "sort_Search n f = Search_loop f 0 n"

definition Search :: "uint list \<Rightarrow> uint \<Rightarrow> nat" where
  "Search s x = sort_Search (length s) (\<lambda>i. s ! i \<ge> x)"

definition findPos :: "Migrations \<Rightarrow> uint \<Rightarrow> int" where
  "findPos i version =
     (if length (index i) > 0
      then let ix = Search (index i) version
           in if ix < length (index i) \<and> index i ! ix = version then int ix else - 1
      else - 1)"

definition Prev :: "Migrations \<Rightarrow> uint \<Rightarrow> uint \<times> bool" where
  "Prev i version =
     (let pos = findPos i version
      in if pos \<ge> 1 \<and> int (length (index i)) > pos - 1
         then (index i ! nat (pos - 1), True)
         else (0, False))"

definition Next :: "Migrations \<Rightarrow> uint \<Rightarrow> uint \<times> bool" where
  "Next i version =
     (let pos = findPos i version
      in if pos \<ge> 0 \<and> int (length (index i)) > pos + 1
         then (index i ! nat (pos + 1), True)
         else (0, False))"

definition Up_lookup :: "Migrations \<Rightarrow> uint \<Rightarrow> ptr \<times> bool" where
  "Up_lookup i version =
     (case map_of (migrations i) version of
        Some _ \<Rightarrow>
          (case map_of (inner (migrations i) version) Up of
             Some mx \<Rightarrow> (Some mx, True)
           | None \<Rightarrow> (None, False))
      | None \<Rightarrow> (None, False))"

definition Down_lookup :: "Migrations \<Rightarrow> uint \<Rightarrow> ptr \<times> bool" where
  "Down_lookup i version =
     (case map_of (migrations i) version of
        Some _ \<Rightarrow>
          (case map_of (inner (migrations i) version) Down of
             Some mx \<Rightarrow> (Some mx, True)
           | None \<Rightarrow> (None, False))
      | None \<Rightarrow> (None, False))"

text \<open>
  \<^verbatim>\<open>MarkSkipMigrations\<close> writes through \<^verbatim>\<open>i.migrations[i.index[idx]][dir]\<close> with no
  check that the pointer is there: on a \<^verbatim>\<open>nil\<close> pointer the Go runtime panics, and
  the model returns the panic in place of the heap.
\<close>

datatype panic = NilPointerDereference

definition set_Status :: "heap \<Rightarrow> addr \<Rightarrow> Status \<Rightarrow> heap" where
  "set_Status h a st = h(a := (h a)\<lparr>Status := st\<rparr>)"

definition set_Error :: "heap \<Rightarrow> addr \<Rightarrow> string \<Rightarrow> heap" where
  "set_Error h a e = h(a := (h a)\<lparr>Error := e\<rparr>)"

fun MarkSkip_loop :: "vermap \<Rightarrow> uint \<Rightarrow> Direction \<Rightarrow> uint list \<Rightarrow> heap \<Rightarrow> panic + heap" where
  "MarkSkip_loop ms version dir [] h = Inr h"
| "MarkSkip_loop ms version dir (x # xs) h =
     (if dir = Up \<and> x \<le> version
      then (case lookup ms x dir of
              None \<Rightarrow> Inl NilPointerDereference
            | Some a \<Rightarrow> MarkSkip_loop ms version dir xs (set_Status h a Skipped))
      else if dir = Down \<and> x \<ge> version
      then (case lookup ms x dir of
              None \<Rightarrow> Inl NilPointerDereference
            | Some a \<Rightarrow> MarkSkip_loop ms version dir xs (set_Status h a Skipped))
      else MarkSkip_loop ms version dir xs h)"

definition MarkSkipMigrations :: "heap \<Rightarrow> Migrations \<Rightarrow> uint \<Rightarrow> Direction \<Rightarrow> panic + heap" where
  "MarkSkipMigrations h i version dir = MarkSkip_loop (migrations i) version dir (index i) h"

definition UpdateStatus :: "heap \<Rightarrow> Migrations \<Rightarrow> uint \<Rightarrow> Status \<Rightarrow> string \<Rightarrow> heap" where
  "UpdateStatus h i version status errstr =
     (case map_of (migrations i) version of
        Some _ \<Rightarrow>
          let h1 = (case map_of (inner (migrations i) version) Up of
                      Some mx \<Rightarrow> set_Error (set_Status h mx status) mx errstr
                    | None \<Rightarrow> h)
          in (case map_of (inner (migrations i) version) Down of
                Some mx \<Rightarrow> set_Error (set_Status h1 mx status) mx errstr
              | None \<Rightarrow> h1)
      | None \<Rightarrow> h)"


section \<open>Vocabulary of the properties\<close>

text \<open>The keys of the version mapping, and the (version, direction) pair of a record.\<close>

definition keys :: "Migrations \<Rightarrow> uint set" where
  "keys i = fst ` set (migrations i)"

definition key :: "heap \<Rightarrow> addr \<Rightarrow> uint \<times> Direction" where
  "key h a = (Version (h a), Direction (h a))"

text \<open>
  The invariant of the index: the association list is a map (its keys are distinct,
  as the keys of a Go map are), and the sorted sequence is the ascending list of
  those keys.
\<close>

definition index_inv :: "Migrations \<Rightarrow> bool" where
  "index_inv i \<longleftrightarrow>
     distinct (map fst (migrations i)) \<and> index i = sorted_list_of_set (keys i)"

text \<open>A run of \<^verbatim>\<open>Append\<close> calls that must all succeed: \<open>None\<close> as soon as one fails.\<close>

fun appends :: "heap \<Rightarrow> Migrations \<Rightarrow> ptr list \<Rightarrow> Migrations option" where
  "appends h i [] = Some i"
| "appends h i (m # ms) =
     (case Append h i m of
        (True, i') \<Rightarrow> appends h i' ms
      | (False, i') \<Rightarrow> None)"

text \<open>
  A run of \<^verbatim>\<open>Append\<close> calls whatever they return, and the records whose call
  returned true.
\<close>

fun Append_seq :: "heap \<Rightarrow> Migrations \<Rightarrow> ptr list \<Rightarrow> Migrations" where
  "Append_seq h i [] = i"
| "Append_seq h i (m # ms) = Append_seq h (snd (Append h i m)) ms"

fun appended :: "heap \<Rightarrow> Migrations \<Rightarrow> ptr list \<Rightarrow> addr list" where
  "appended h i [] = []"
| "appended h i (m # ms) =
     (if fst (Append h i m) then (case m of Some a \<Rightarrow> [a] | None \<Rightarrow> []) else [])
     @ appended h (snd (Append h i m)) ms"

text \<open>Concrete stores for the examples: the records of a list, at its positions.\<close>

definition zero_Migration :: Migration where
  "zero_Migration =
     \<lparr>Version = 0, Identifier = [], Direction = [], Raw = [], Status = [], Error = []\<rparr>"

definition heap_of :: "Migration list \<Rightarrow> heap" where
  "heap_of rs = (\<lambda>a. if a < length rs then rs ! a else zero_Migration)"

definition mk :: "uint \<Rightarrow> Direction \<Rightarrow> Status \<Rightarrow> Migration" where
  "mk v d st = \<lparr>Version = v, Identifier = [], Direction = d, Raw = [], Status = st, Error = []\<rparr>"

text \<open>
  The index of the spec's scenario, Up and Down records for the versions 1, 2 and 5,
  with two more records in the store that are not indexed: a second Up record of
  version 2 at address 6 and a Down record of version 7 at address 7.
\<close>

definition ex_heap :: heap where
  "ex_heap =
     heap_of [mk 1 Up Pending, mk 1 Down Pending, mk 2 Up Pending, mk 2 Down Done,
              mk 5 Up Pending, mk 5 Down Pending, mk 2 Up Failed, mk 7 Down Pending]"

definition ex_index :: Migrations where
  "ex_index =
     \<lparr>index = [1, 2, 5],
      migrations = [(1, [(Up, 0), (Down, 1)]), (2, [(Up, 2), (Down, 3)]),
                    (5, [(Up, 4), (Down, 5)])]\<rparr>"


section \<open>Properties of the index\<close>

subsection \<open>Append\<close>

lemma lookup_update:
  "lookup (AList.update v (AList.update d a (inner ms v)) ms) v' d' =
     (if v' = v \<and> d' = d then Some a else lookup ms v' d')"
  by (simp add: lookup_def inner_def update_conv')

lemma Append_nil: "Append h i None = (False, i)"
  by (simp add: Append_def)

lemma Append_dup:
  "lookup (migrations i) (Version (h a)) (Direction (h a)) \<noteq> None \<Longrightarrow>
   Append h i (Some a) = (False, i)"
  by (auto simp: Append_def lookup_def inner_def Let_def split: option.splits)

lemma Append_new:
  "lookup (migrations i) (Version (h a)) (Direction (h a)) = None \<Longrightarrow>
   Append h i (Some a) =
     (True, buildIndex (i\<lparr>migrations :=
        AList.update (Version (h a))
          (AList.update (Direction (h a)) a (inner (migrations i) (Version (h a))))
          (migrations i)\<rparr>))"
  by (auto simp: Append_def lookup_def inner_def Let_def update_conv' buildIndex_def
      split: option.splits)

lemma sort_distinct: "distinct xs \<Longrightarrow> sort xs = sorted_list_of_set (set xs)"
  by (simp add: sorted_list_of_set_sort_remdups distinct_remdups_id)

lemma buildIndex_inv:
  "distinct (map fst (migrations i)) \<Longrightarrow> index_inv (buildIndex i)"
  by (simp add: index_inv_def buildIndex_def keys_def sort_distinct)

lemma Append_new_keys:
  assumes "lookup (migrations i) (Version (h a)) (Direction (h a)) = None"
  shows "keys (snd (Append h i (Some a))) = insert (Version (h a)) (keys i)"
  by (simp add: Append_new [where h=h and a=a and i=i, OF assms] keys_def buildIndex_def
      dom_update)

lemma Append_new_lookup:
  assumes "lookup (migrations i) (Version (h a)) (Direction (h a)) = None"
  shows "lookup (migrations (snd (Append h i (Some a)))) v d =
           (if v = Version (h a) \<and> d = Direction (h a) then Some a
            else lookup (migrations i) v d)"
  by (simp add: Append_new [where h=h and a=a and i=i, OF assms] buildIndex_def lookup_update)

lemma Append_new_inv:
  assumes "lookup (migrations i) (Version (h a)) (Direction (h a)) = None"
    and "distinct (map fst (migrations i))"
  shows "index_inv (snd (Append h i (Some a)))"
  using assms(2)
  by (simp add: Append_new [where h=h and a=a and i=i, OF assms(1)] buildIndex_inv
      distinct_update)

lemma Append_index_inv: "index_inv i \<Longrightarrow> index_inv (snd (Append h i m))"
proof (cases m)
  case None
  assume "index_inv i"
  with None show ?thesis by (simp add: Append_nil)
next
  case (Some a)
  assume inv: "index_inv i"
  show ?thesis
  proof (cases "lookup (migrations i) (Version (h a)) (Direction (h a))")
    case None
    have "distinct (map fst (migrations i))" using inv by (simp add: index_inv_def)
    from Append_new_inv [where h=h and a=a and i=i, OF None this] Some show ?thesis by simp
  next
    case (Some b)
    with inv \<open>m = Some a\<close> show ?thesis by (simp add: Append_dup)
  qed
qed




subsection \<open>The sorted sequence\<close>

lemma appends_distinct:
  "index_inv i \<Longrightarrow> distinct (map (key h) as) \<Longrightarrow>
   (\<forall>a\<in>set as. lookup (migrations i) (Version (h a)) (Direction (h a)) = None) \<Longrightarrow>
   \<exists>i'. appends h i (map Some as) = Some i' \<and> index_inv i' \<and>
        keys i' = keys i \<union> (\<lambda>a. Version (h a)) ` set as \<and>
        (\<forall>a\<in>set as. lookup (migrations i') (Version (h a)) (Direction (h a)) = Some a) \<and>
        (\<forall>v d. (v, d) \<notin> key h ` set as \<longrightarrow> lookup (migrations i') v d = lookup (migrations i) v d)"
proof (induction as arbitrary: i)
  case Nil
  then show ?case by simp
next
  case (Cons a as)
  have new: "lookup (migrations i) (Version (h a)) (Direction (h a)) = None"
    using Cons.prems(3) by simp
  let ?j = "snd (Append h i (Some a))"
  have inv: "index_inv ?j"
  proof -
    have "distinct (map fst (migrations i))" using Cons.prems(1) by (simp add: index_inv_def)
    from Append_new_inv [where h=h and a=a and i=i, OF new this] show ?thesis .
  qed
  have fresh: "\<forall>b\<in>set as. lookup (migrations ?j) (Version (h b)) (Direction (h b)) = None"
  proof
    fix b assume b: "b \<in> set as"
    have "key h a \<notin> key h ` set as" using Cons.prems(2) by simp
    then have "key h b \<noteq> key h a" using b by (metis imageI)
    then have "\<not> (Version (h b) = Version (h a) \<and> Direction (h b) = Direction (h a))"
      by (simp add: key_def)
    then show "lookup (migrations ?j) (Version (h b)) (Direction (h b)) = None"
      using Cons.prems(3) b by (simp add: Append_new_lookup [where h=h and a=a and i=i, OF new])
  qed
  from Cons.IH [OF inv _ fresh] Cons.prems(2)
  obtain i' where i': "appends h ?j (map Some as) = Some i'" "index_inv i'"
      "keys i' = keys ?j \<union> (\<lambda>a. Version (h a)) ` set as"
      "\<forall>a\<in>set as. lookup (migrations i') (Version (h a)) (Direction (h a)) = Some a"
      "\<forall>v d. (v, d) \<notin> key h ` set as \<longrightarrow> lookup (migrations i') v d = lookup (migrations ?j) v d"
    by auto
  have "appends h i (map Some (a # as)) = Some i'"
    using i'(1) by (simp add: Append_new [where h=h and a=a and i=i, OF new])
  moreover have "keys i' = keys i \<union> (\<lambda>a. Version (h a)) ` set (a # as)"
    using i'(3) by (simp add: Append_new_keys [where h=h and a=a and i=i, OF new])
  moreover have "lookup (migrations i') (Version (h a)) (Direction (h a)) = Some a"
  proof -
    have "(Version (h a), Direction (h a)) \<notin> key h ` set as"
      using Cons.prems(2) by (simp add: key_def)
    with i'(5) show ?thesis
      by (simp add: Append_new_lookup [where h=h and a=a and i=i, OF new])
  qed
  moreover have "\<forall>v d. (v, d) \<notin> key h ` set (a # as) \<longrightarrow>
      lookup (migrations i') v d = lookup (migrations i) v d"
    using i'(5) by (auto simp: Append_new_lookup [where h=h and a=a and i=i, OF new] key_def)
  ultimately show ?case using i'(2,4) by auto
qed

lemma First_min:
  assumes "index_inv i" "keys i \<noteq> {}"
  shows "First i = (Min (keys i), True)"
proof -
  have fin: "finite (keys i)" by (simp add: keys_def)
  have "index i = Min (keys i) # sorted_list_of_set (keys i - {Min (keys i)})"
    using assms fin by (simp add: index_inv_def sorted_list_of_set_nonempty)
  then show ?thesis by (simp add: First_def)
qed

lemma First_empty: "First i = (0, False) \<longleftrightarrow> index i = []"
  by (simp add: First_def)

lemma NewMigrations_inv: "index_inv NewMigrations"
  by (simp add: index_inv_def NewMigrations_def keys_def)

lemma lookup_New: "lookup (migrations NewMigrations) v d = None"
  by (simp add: lookup_def inner_def NewMigrations_def)

text \<open>
  C2. Appending records with pairwise distinct (version, direction) pairs to a new
  index succeeds at every call, and the sorted sequence of the result is the
  ascending list of the distinct versions appended; \<^verbatim>\<open>First\<close> returns the least of
  them. The invariant, that the sorted sequence is the ascending list of the keys of
  the version mapping, holds of the new index and is kept by every \<^verbatim>\<open>Append\<close>,
  failed or not; \<^verbatim>\<open>UpdateStatus\<close> and \<^verbatim>\<open>MarkSkipMigrations\<close> write to records
  only and leave the mapping and the sequence alone, so they return the store
  alone. \<^verbatim>\<open>First\<close> returns \<open>(0, false)\<close> exactly when the sequence is empty.
\<close>

theorem index_is_sorted_keys:
  "(distinct (map (key h) as) \<longrightarrow>
      (\<exists>i. appends h NewMigrations (map Some as) = Some i \<and>
           index i = sorted_list_of_set ((\<lambda>a. Version (h a)) ` set as) \<and>
           index_inv i \<and>
           First i = (if as = [] then (0, False)
                      else (Min ((\<lambda>a. Version (h a)) ` set as), True)))) \<and>
   index_inv NewMigrations \<and>
   (index_inv j \<longrightarrow> index_inv (snd (Append h j m))) \<and>
   (First j = (0, False) \<longleftrightarrow> index j = [])"
proof (intro conjI impI)
  assume d: "distinct (map (key h) as)"
  from appends_distinct [OF NewMigrations_inv d]
  obtain i where i: "appends h NewMigrations (map Some as) = Some i" "index_inv i"
    "keys i = keys NewMigrations \<union> (\<lambda>a. Version (h a)) ` set as"
    by (auto simp: lookup_New)
  have k: "keys i = (\<lambda>a. Version (h a)) ` set as"
    using i(3) by (simp add: keys_def NewMigrations_def)
  have "index i = sorted_list_of_set ((\<lambda>a. Version (h a)) ` set as)"
    using i(2) k by (simp add: index_inv_def)
  moreover have "First i = (if as = [] then (0, False)
                      else (Min ((\<lambda>a. Version (h a)) ` set as), True))"
  proof (cases "as = []")
    case True
    with i(1) show ?thesis by (auto simp: First_def NewMigrations_def)
  next
    case False
    then have "keys i \<noteq> {}" using k by simp
    from First_min [OF i(2) this] False k show ?thesis by simp
  qed
  ultimately show "\<exists>i. appends h NewMigrations (map Some as) = Some i \<and>
           index i = sorted_list_of_set ((\<lambda>a. Version (h a)) ` set as) \<and>
           index_inv i \<and>
           First i = (if as = [] then (0, False)
                      else (Min ((\<lambda>a. Version (h a)) ` set as), True))"
    using i(1,2) by blast
qed (simp_all add: NewMigrations_inv Append_index_inv First_empty)

theorem index_is_sorted_keys_witness:
  "distinct (map (key ex_heap) [4, 0, 2, 1]) \<and>
   (\<exists>i. appends ex_heap NewMigrations (map Some [4, 0, 2, 1]) = Some i \<and>
        index i = [1, 2, 5] \<and> First i = (1, True)) \<and>
   index_inv ex_index \<and>
   index_inv (snd (Append ex_heap ex_index (Some 7)))"
proof -
  have d: "distinct (map (key ex_heap) [4, 0, 2, 1])"
    by code_simp
  have s: "sorted_list_of_set ((\<lambda>a. Version (ex_heap a)) ` set [4, 0, 2, 1]) = [1, 2, 5]"
    by code_simp
  have m: "Min ((\<lambda>a. Version (ex_heap a)) ` set [4, 0, 2, 1]) = 1"
    by code_simp
  have inv: "index_inv ex_index"
    by code_simp
  from index_is_sorted_keys [of ex_heap "[4, 0, 2, 1]" ex_index "Some 7"] d inv
  have "\<exists>i. appends ex_heap NewMigrations (map Some [4, 0, 2, 1]) = Some i \<and>
          index i = sorted_list_of_set ((\<lambda>a. Version (ex_heap a)) ` set [4, 0, 2, 1]) \<and>
          index_inv i \<and>
          First i = (if [4, 0, 2, 1] = ([]::addr list) then (0, False)
                     else (Min ((\<lambda>a. Version (ex_heap a)) ` set [4, 0, 2, 1]), True))"
    and "index_inv (snd (Append ex_heap ex_index (Some 7)))"
    by blast+
  then show ?thesis
    unfolding s m using d inv by auto
qed

subsection \<open>Up and Down\<close>

lemma Up_lookup_eq:
  "Up_lookup i v = (lookup (migrations i) v Up, lookup (migrations i) v Up \<noteq> None)"
  by (auto simp: Up_lookup_def lookup_def inner_def split: option.splits)

lemma Down_lookup_eq:
  "Down_lookup i v = (lookup (migrations i) v Down, lookup (migrations i) v Down \<noteq> None)"
  by (auto simp: Down_lookup_def lookup_def inner_def split: option.splits)

lemma Append_True:
  assumes "Append h i (Some a) = (True, i')"
  shows "lookup (migrations i') (Version (h a)) (Direction (h a)) = Some a"
proof -
  have new: "lookup (migrations i) (Version (h a)) (Direction (h a)) = None"
  proof (rule ccontr)
    assume "lookup (migrations i) (Version (h a)) (Direction (h a)) \<noteq> None"
    from Append_dup [where h=h and a=a and i=i, OF this] assms show False by simp
  qed
  from Append_new_lookup [where h=h and a=a and i=i, OF new] assms show ?thesis by simp
qed

lemma Append_seq_lookup:
  "lookup (migrations (Append_seq h i ps)) v d = Some a \<longleftrightarrow>
     lookup (migrations i) v d = Some a \<or> (a \<in> set (appended h i ps) \<and> key h a = (v, d))"
proof (induction ps arbitrary: i)
  case Nil
  show ?case by simp
next
  case (Cons m ps)
  show ?case
  proof (cases m)
    case None
    then show ?thesis by (simp add: Cons.IH Append_nil)
  next
    case (Some b)
    show ?thesis
    proof (cases "lookup (migrations i) (Version (h b)) (Direction (h b))")
      case None
      note app = Append_new [where h=h and a=b and i=i, OF None]
      note lk = Append_new_lookup [where h=h and a=b and i=i, OF None]
      have "fst (Append h i (Some b))" by (simp add: app)
      then show ?thesis
        using None by (auto simp: Some Cons.IH lk key_def)
    next
      case (Some c)
      then have "Append h i (Some b) = (False, i)" by (simp add: Append_dup)
      then show ?thesis by (simp add: \<open>m = Some b\<close> Cons.IH)
    qed
  qed
qed

text \<open>
  C10. When \<^verbatim>\<open>Append(m)\<close> returns true, the lookup for the direction of \<open>m\<close> at
  the version of \<open>m\<close> returns the pointer \<open>m\<close> itself and found: whatever the store
  becomes afterwards, the record read through the lookup is the record at the
  address that was appended, so a later write to its status or error is seen.
  \<^verbatim>\<open>Append(nil)\<close> never returns true. After any run of \<^verbatim>\<open>Append\<close> calls on a new
  index, \<^verbatim>\<open>Up(v)\<close> returns \<open>(b, true)\<close> exactly for the record \<open>b\<close> whose call
  returned true with the pair (v, Up), and \<open>(nil, false)\<close> exactly when no call
  returned true for that pair; the same for \<^verbatim>\<open>Down\<close>.
\<close>

theorem lookup_returns_appended_record:
  "(Append h i (Some a) = (True, i') \<longrightarrow>
      (Direction (h a) = Up \<longrightarrow>
         Up_lookup i' (Version (h a)) = (Some a, True) \<and>
         (\<forall>h'. map_option h' (fst (Up_lookup i' (Version (h a)))) = Some (h' a))) \<and>
      (Direction (h a) = Down \<longrightarrow>
         Down_lookup i' (Version (h a)) = (Some a, True) \<and>
         (\<forall>h'. map_option h' (fst (Down_lookup i' (Version (h a)))) = Some (h' a)))) \<and>
   \<not> fst (Append h i None) \<and>
   (Up_lookup (Append_seq h NewMigrations ps) v = (Some b, True) \<longleftrightarrow>
      b \<in> set (appended h NewMigrations ps) \<and> key h b = (v, Up)) \<and>
   (Down_lookup (Append_seq h NewMigrations ps) v = (Some b, True) \<longleftrightarrow>
      b \<in> set (appended h NewMigrations ps) \<and> key h b = (v, Down)) \<and>
   (Up_lookup (Append_seq h NewMigrations ps) v = (None, False) \<longleftrightarrow>
      \<not> (\<exists>c\<in>set (appended h NewMigrations ps). key h c = (v, Up))) \<and>
   (Down_lookup (Append_seq h NewMigrations ps) v = (None, False) \<longleftrightarrow>
      \<not> (\<exists>c\<in>set (appended h NewMigrations ps). key h c = (v, Down)))"
proof -
  have seq: "lookup (migrations (Append_seq h NewMigrations ps)) v d = Some c \<longleftrightarrow>
      c \<in> set (appended h NewMigrations ps) \<and> key h c = (v, d)" for c d
    by (simp add: Append_seq_lookup lookup_New)
  have none: "lookup (migrations (Append_seq h NewMigrations ps)) v d = None \<longleftrightarrow>
      \<not> (\<exists>c\<in>set (appended h NewMigrations ps). key h c = (v, d))" for d
  proof -
    have "lookup (migrations (Append_seq h NewMigrations ps)) v d = None \<longleftrightarrow>
        \<not> (\<exists>c. lookup (migrations (Append_seq h NewMigrations ps)) v d = Some c)"
      by auto
    then show ?thesis by (auto simp: seq)
  qed
  have a: "Append h i (Some a) = (True, i') \<longrightarrow>
      (Direction (h a) = Up \<longrightarrow>
         Up_lookup i' (Version (h a)) = (Some a, True) \<and>
         (\<forall>h'. map_option h' (fst (Up_lookup i' (Version (h a)))) = Some (h' a))) \<and>
      (Direction (h a) = Down \<longrightarrow>
         Down_lookup i' (Version (h a)) = (Some a, True) \<and>
         (\<forall>h'. map_option h' (fst (Down_lookup i' (Version (h a)))) = Some (h' a)))"
    using Append_True [where h=h and a=a and i=i and i'=i']
    by (auto simp: Up_lookup_eq Down_lookup_eq)
  have b: "\<not> fst (Append h i None)" by (simp add: Append_nil)
  have c: "Up_lookup (Append_seq h NewMigrations ps) v = (Some b, True) \<longleftrightarrow>
      b \<in> set (appended h NewMigrations ps) \<and> key h b = (v, Up)"
    using seq [of Up b] by (auto simp: Up_lookup_eq)
  have d: "Down_lookup (Append_seq h NewMigrations ps) v = (Some b, True) \<longleftrightarrow>
      b \<in> set (appended h NewMigrations ps) \<and> key h b = (v, Down)"
    using seq [of Down b] by (auto simp: Down_lookup_eq)
  have e: "Up_lookup (Append_seq h NewMigrations ps) v = (None, False) \<longleftrightarrow>
      \<not> (\<exists>c\<in>set (appended h NewMigrations ps). key h c = (v, Up))"
    using none [of Up] by (auto simp: Up_lookup_eq)
  have f: "Down_lookup (Append_seq h NewMigrations ps) v = (None, False) \<longleftrightarrow>
      \<not> (\<exists>c\<in>set (appended h NewMigrations ps). key h c = (v, Down))"
    using none [of Down] by (auto simp: Down_lookup_eq)
  from a b c d e f show ?thesis by blast
qed


theorem lookup_returns_appended_record_witness:
  "Append ex_heap ex_index (Some 7) = (True, snd (Append ex_heap ex_index (Some 7))) \<and>
   Direction (ex_heap 7) = Down \<and>
   Down_lookup (snd (Append ex_heap ex_index (Some 7))) (Version (ex_heap 7)) = (Some 7, True) \<and>
   Append ex_heap NewMigrations (Some 4) = (True, snd (Append ex_heap NewMigrations (Some 4))) \<and>
   Direction (ex_heap 4) = Up \<and>
   Up_lookup (snd (Append ex_heap NewMigrations (Some 4))) (Version (ex_heap 4)) = (Some 4, True) \<and>
   appended ex_heap NewMigrations [Some 2, None, Some 6, Some 3] = [2, 3] \<and>
   Up_lookup (Append_seq ex_heap NewMigrations [Some 2, None, Some 6, Some 3]) 2 = (Some 2, True) \<and>
   Down_lookup (Append_seq ex_heap NewMigrations [Some 2, None, Some 6, Some 3]) 2 = (Some 3, True) \<and>
   Up_lookup (Append_seq ex_heap NewMigrations [Some 2, None, Some 6, Some 3]) 5 = (None, False) \<and>
   Down_lookup (Append_seq ex_heap NewMigrations [Some 2, None, Some 6, Some 3]) 5 = (None, False)"
proof -
  note T = lookup_returns_appended_record
  have a7: "Append ex_heap ex_index (Some 7) = (True, snd (Append ex_heap ex_index (Some 7)))"
    by code_simp
  have d7: "Direction (ex_heap 7) = Down"
    by code_simp
  have a4: "Append ex_heap NewMigrations (Some 4) = (True, snd (Append ex_heap NewMigrations (Some 4)))"
    by code_simp
  have d4: "Direction (ex_heap 4) = Up"
    by code_simp
  have ap: "appended ex_heap NewMigrations [Some 2, None, Some 6, Some 3] = [2, 3]"
    by code_simp
  have k: "key ex_heap 2 = (2, Up)" "key ex_heap 3 = (2, Down)"
    by code_simp+
  have ud: "Up \<noteq> Down" by code_simp
  have "Down_lookup (snd (Append ex_heap ex_index (Some 7))) (Version (ex_heap 7)) = (Some 7, True)"
    using T [of ex_heap ex_index 7 "snd (Append ex_heap ex_index (Some 7))"] a7 d7 by blast
  moreover have "Up_lookup (snd (Append ex_heap NewMigrations (Some 4))) (Version (ex_heap 4)) = (Some 4, True)"
    using T [of ex_heap NewMigrations 4 "snd (Append ex_heap NewMigrations (Some 4))"] a4 d4 by blast
  moreover have "Up_lookup (Append_seq ex_heap NewMigrations [Some 2, None, Some 6, Some 3]) 2 = (Some 2, True)"
  proof -
    from T [where h=ex_heap and ps="[Some 2, None, Some 6, Some 3]" and v=2 and b=2]
    have "Up_lookup (Append_seq ex_heap NewMigrations [Some 2, None, Some 6, Some 3]) 2 = (Some 2, True) \<longleftrightarrow>
      2 \<in> set (appended ex_heap NewMigrations [Some 2, None, Some 6, Some 3]) \<and> key ex_heap 2 = (2, Up)"
      by blast
    then show ?thesis unfolding ap k by simp
  qed
  moreover have "Down_lookup (Append_seq ex_heap NewMigrations [Some 2, None, Some 6, Some 3]) 2 = (Some 3, True)"
  proof -
    from T [where h=ex_heap and ps="[Some 2, None, Some 6, Some 3]" and v=2 and b=3]
    have "Down_lookup (Append_seq ex_heap NewMigrations [Some 2, None, Some 6, Some 3]) 2 = (Some 3, True) \<longleftrightarrow>
      3 \<in> set (appended ex_heap NewMigrations [Some 2, None, Some 6, Some 3]) \<and> key ex_heap 3 = (2, Down)"
      by blast
    then show ?thesis unfolding ap k by simp
  qed
  moreover have "Up_lookup (Append_seq ex_heap NewMigrations [Some 2, None, Some 6, Some 3]) 5 = (None, False)"
  proof -
    from T [where h=ex_heap and ps="[Some 2, None, Some 6, Some 3]" and v=5]
    have "Up_lookup (Append_seq ex_heap NewMigrations [Some 2, None, Some 6, Some 3]) 5 = (None, False) \<longleftrightarrow>
      \<not> (\<exists>c\<in>set (appended ex_heap NewMigrations [Some 2, None, Some 6, Some 3]). key ex_heap c = (5, Up))"
      by blast
    then show ?thesis unfolding ap using k by simp
  qed
  moreover have "Down_lookup (Append_seq ex_heap NewMigrations [Some 2, None, Some 6, Some 3]) 5 = (None, False)"
  proof -
    from T [where h=ex_heap and ps="[Some 2, None, Some 6, Some 3]" and v=5]
    have "Down_lookup (Append_seq ex_heap NewMigrations [Some 2, None, Some 6, Some 3]) 5 = (None, False) \<longleftrightarrow>
      \<not> (\<exists>c\<in>set (appended ex_heap NewMigrations [Some 2, None, Some 6, Some 3]). key ex_heap c = (5, Down))"
      by blast
    then show ?thesis unfolding ap using k by simp
  qed
  ultimately show ?thesis using a7 d7 a4 d4 ap by simp
qed

subsection \<open>Prev and Next\<close>

lemma Search_loop_spec:
  "(\<forall>k l. k \<le> l \<and> l < n \<and> f k \<longrightarrow> f l) \<Longrightarrow> i \<le> j \<Longrightarrow> j \<le> n \<Longrightarrow>
   (\<forall>k<i. \<not> f k) \<Longrightarrow> (\<forall>k. j \<le> k \<and> k < n \<longrightarrow> f k) \<Longrightarrow>
     Search_loop f i j \<le> n \<and>
     (\<forall>k<Search_loop f i j. \<not> f k) \<and> (\<forall>k. Search_loop f i j \<le> k \<and> k < n \<longrightarrow> f k)"
proof (induction f i j rule: Search_loop.induct)
  case (1 f i j)
  note mono = "1.prems"(1)
  show ?case
  proof (cases "i < j")
    case False
    then have "Search_loop f i j = i" by (subst Search_loop.simps) simp
    with False "1.prems" show ?thesis by simp
  next
    case True
    define h where "h = (i + j) div 2"
    have hb: "i \<le> h" "h < j" using True by (simp_all add: h_def)
    have hn: "h < n" using hb "1.prems"(3) by simp
    have unfold: "Search_loop f i j = (if \<not> f h then Search_loop f (h + 1) j else Search_loop f i h)"
      using True by (subst Search_loop.simps) (simp add: Let_def h_def)
    show ?thesis
    proof (cases "f h")
      case False
      have low: "\<forall>k<h + 1. \<not> f k"
      proof (intro allI impI)
        fix k assume "k < h + 1"
        then have kh: "k \<le> h" by simp
        show "\<not> f k"
        proof
          assume "f k"
          with mono kh hn have "f h" by blast
          with False show False ..
        qed
      qed
      have eq: "Search_loop f i j = Search_loop f (h + 1) j"
        using False by (simp add: unfold)
      have le: "h + 1 \<le> j" using hb by simp
      have "Search_loop f (h + 1) j \<le> n \<and>
        (\<forall>k<Search_loop f (h + 1) j. \<not> f k) \<and>
        (\<forall>k. Search_loop f (h + 1) j \<le> k \<and> k < n \<longrightarrow> f k)"
        by (rule "1.IH"(1) [of h]) (fact True h_def False mono le "1.prems"(3) low "1.prems"(5))+
      then show ?thesis unfolding eq .
    next
      case fh: True
      have high: "\<forall>k. h \<le> k \<and> k < n \<longrightarrow> f k"
      proof (intro allI impI)
        fix k assume "h \<le> k \<and> k < n"
        with mono fh show "f k" by blast
      qed
      have eq: "Search_loop f i j = Search_loop f i h"
        using fh by (simp add: unfold)
      have le: "h \<le> n" using hn by simp
      have nn: "\<not> \<not> f h" using fh by simp
      have "Search_loop f i h \<le> n \<and>
        (\<forall>k<Search_loop f i h. \<not> f k) \<and>
        (\<forall>k. Search_loop f i h \<le> k \<and> k < n \<longrightarrow> f k)"
        by (rule "1.IH"(2) [of h]) (fact True h_def nn mono hb(1) le "1.prems"(4) high)+
      then show ?thesis unfolding eq .
    qed
  qed
qed

lemma Search_spec:
  assumes "sorted s"
  shows "Search s x \<le> length s \<and> (\<forall>k<Search s x. s ! k < x) \<and>
         (\<forall>k. Search s x \<le> k \<and> k < length s \<longrightarrow> x \<le> s ! k)"
proof -
  have mono: "\<forall>k l. k \<le> l \<and> l < length s \<and> x \<le> s ! k \<longrightarrow> x \<le> s ! l"
  proof (intro allI impI)
    fix k l
    assume a: "k \<le> l \<and> l < length s \<and> x \<le> s ! k"
    then have "s ! k \<le> s ! l" using assms by (simp add: sorted_nth_mono)
    moreover have "x \<le> s ! k" using a by simp
    ultimately show "x \<le> s ! l" by (rule order_trans [rotated])
  qed
  have "\<forall>k<0::nat. \<not> x \<le> s ! k" "\<forall>k. length s \<le> k \<and> k < length s \<longrightarrow> x \<le> s ! k"
    by auto
  from Search_loop_spec [where f="\<lambda>i. x \<le> s ! i" and n="length s" and i=0 and j="length s",
      OF mono le0 le_refl this]
  show ?thesis by (simp add: Search_def sort_Search_def not_le)
qed


lemma findPos_member:
  assumes "sorted (index i)" "distinct (index i)" "k < length (index i)"
  shows "findPos i (index i ! k) = int k"
proof -
  let ?s = "index i" and ?x = "index i ! k"
  let ?r = "Search ?s ?x"
  note sp = Search_spec [OF assms(1), of ?x]
  have rk: "?r \<le> k"
  proof (rule ccontr)
    assume "\<not> ?r \<le> k"
    then have "k < ?r" by simp
    with sp have "?s ! k < ?x" by blast
    then show False by simp
  qed
  then have rl: "?r < length ?s" using assms(3) by simp
  with sp have "?x \<le> ?s ! ?r" by blast
  moreover have "?s ! ?r \<le> ?x" using assms(1,3) rk by (simp add: sorted_iff_nth_mono)
  ultimately have "?s ! ?r = ?s ! k" by simp
  then have "?r = k" using assms(2,3) rl by (simp add: nth_eq_iff_index_eq)
  then show ?thesis using assms(3) by (auto simp: findPos_def Let_def)
qed

lemma findPos_absent:
  assumes "v \<notin> set (index i)"
  shows "findPos i v = - 1"
proof -
  have "\<not> (Search (index i) v < length (index i) \<and> index i ! Search (index i) v = v)"
    using assms nth_mem by metis
  then show ?thesis by (auto simp: findPos_def Let_def)
qed

lemma sorted_last_Max:
  assumes "sorted xs" "xs \<noteq> []"
  shows "last xs = Max (set xs)"
proof -
  have "y \<le> last xs" if "y \<in> set xs" for y
  proof -
    from that obtain k where k: "k < length xs" "xs ! k = y"
      by (auto simp: in_set_conv_nth)
    have "xs ! k \<le> xs ! (length xs - 1)"
      using assms(1) k(1) by (intro sorted_nth_mono) simp_all
    then show ?thesis using k(2) assms(2) by (simp add: last_conv_nth)
  qed
  moreover have "last xs \<in> set xs" using assms(2) by simp
  ultimately show ?thesis by (intro Max_eqI [symmetric]) simp_all
qed

lemma sorted_hd_Min:
  assumes "sorted xs" "xs \<noteq> []"
  shows "hd xs = Min (set xs)"
proof -
  have "hd xs \<le> y" if "y \<in> set xs" for y
  proof -
    from that obtain k where k: "k < length xs" "xs ! k = y"
      by (auto simp: in_set_conv_nth)
    have "xs ! 0 \<le> xs ! k"
      using assms(1) k(1) by (intro sorted_nth_mono) simp_all
    then show ?thesis using k(2) assms(2) by (simp add: hd_conv_nth)
  qed
  moreover have "hd xs \<in> set xs" using assms(2) by simp
  ultimately show ?thesis by (intro Min_eqI [symmetric]) simp_all
qed

lemma index_inv_sorted:
  assumes "index_inv i"
  shows "sorted (index i)" "distinct (index i)" "set (index i) = keys i"
  using assms by (simp_all add: index_inv_def keys_def)

lemma Append_seq_inv: "index_inv i \<Longrightarrow> index_inv (Append_seq h i ps)"
  by (induction ps arbitrary: i) (simp_all add: Append_index_inv)

text \<open>
  C3. In every index built by \<^verbatim>\<open>NewMigrations\<close> and \<^verbatim>\<open>Append\<close> calls the
  invariant holds, so the sorted sequence is strictly ascending and lists exactly the
  keys of the version mapping. Under the invariant, for every position \<open>k\<close> that has
  a next position, \<^verbatim>\<open>Next\<close> of the version at \<open>k\<close> returns the version at \<open>k + 1\<close> and
  found, and \<^verbatim>\<open>Prev\<close> of the version at \<open>k + 1\<close> returns the version at \<open>k\<close> and
  found; \<^verbatim>\<open>Next\<close> of the greatest indexed version and \<^verbatim>\<open>Prev\<close> of the least one
  return \<open>(0, false)\<close>. For a version that is not in the sequence, \<^verbatim>\<open>Next\<close> and
  \<^verbatim>\<open>Prev\<close> return \<open>(0, false)\<close> whatever the sequence holds: the binary search
  gives the lower bound, and \<^verbatim>\<open>findPos\<close> keeps it only when the version found
  there is the one asked for.
\<close>

theorem Prev_Next_neighbours:
  "index_inv (Append_seq h NewMigrations ps) \<and>
   (index_inv i \<longrightarrow>
      sorted (index i) \<and> distinct (index i) \<and> set (index i) = keys i \<and>
      (\<forall>k. k + 1 < length (index i) \<longrightarrow>
           index i ! k < index i ! (k + 1) \<and>
           Next i (index i ! k) = (index i ! (k + 1), True) \<and>
           Prev i (index i ! (k + 1)) = (index i ! k, True)) \<and>
      (index i \<noteq> [] \<longrightarrow>
           Next i (Max (keys i)) = (0, False) \<and> Prev i (Min (keys i)) = (0, False))) \<and>
   (\<forall>v. v \<notin> set (index i) \<longrightarrow> Next i v = (0, False) \<and> Prev i v = (0, False))"
proof -
  have reach: "index_inv (Append_seq h NewMigrations ps)"
    by (rule Append_seq_inv [OF NewMigrations_inv])
  have absent: "\<forall>v. v \<notin> set (index i) \<longrightarrow> Next i v = (0, False) \<and> Prev i v = (0, False)"
  proof (intro allI impI)
    fix v
    assume "v \<notin> set (index i)"
    then have "findPos i v = - 1" by (rule findPos_absent)
    then show "Next i v = (0, False) \<and> Prev i v = (0, False)"
      by (simp add: Next_def Prev_def Let_def)
  qed
  have present: "sorted (index i) \<and> distinct (index i) \<and> set (index i) = keys i \<and>
      (\<forall>k. k + 1 < length (index i) \<longrightarrow>
           index i ! k < index i ! (k + 1) \<and>
           Next i (index i ! k) = (index i ! (k + 1), True) \<and>
           Prev i (index i ! (k + 1)) = (index i ! k, True)) \<and>
      (index i \<noteq> [] \<longrightarrow>
           Next i (Max (keys i)) = (0, False) \<and> Prev i (Min (keys i)) = (0, False))"
    if inv: "index_inv i"
  proof -
    note s = index_inv_sorted(1) [OF inv] and d = index_inv_sorted(2) [OF inv]
      and k = index_inv_sorted(3) [OF inv]
    have step: "index i ! k < index i ! (k + 1) \<and>
           Next i (index i ! k) = (index i ! (k + 1), True) \<and>
           Prev i (index i ! (k + 1)) = (index i ! k, True)"
      if len: "k + 1 < length (index i)" for k
    proof -
      have "index i ! k \<le> index i ! (k + 1)"
        using s len by (intro sorted_nth_mono) simp_all
      moreover have "index i ! k \<noteq> index i ! (k + 1)"
        using d len by (simp add: nth_eq_iff_index_eq)
      ultimately have lt: "index i ! k < index i ! (k + 1)" by simp
      have "findPos i (index i ! k) = int k"
        using s d len by (intro findPos_member) simp_all
      then have n: "Next i (index i ! k) = (index i ! (k + 1), True)"
        using len by (simp add: Next_def Let_def nat_add_distrib)
      have "findPos i (index i ! (k + 1)) = int (k + 1)"
        using s d len by (intro findPos_member) simp_all
      then have p: "Prev i (index i ! (k + 1)) = (index i ! k, True)"
        using len by (simp add: Prev_def Let_def)
      from lt n p show ?thesis by simp
    qed
    have ends: "Next i (Max (keys i)) = (0, False) \<and> Prev i (Min (keys i)) = (0, False)"
      if ne: "index i \<noteq> []"
    proof -
      have mx: "Max (keys i) = last (index i)"
        using sorted_last_Max [OF s ne] k by simp
      have mn: "Min (keys i) = hd (index i)"
        using sorted_hd_Min [OF s ne] k by simp
      have "findPos i (index i ! (length (index i) - 1)) = int (length (index i) - 1)"
        using s d ne by (intro findPos_member) simp_all
      then have n: "Next i (last (index i)) = (0, False)"
        using ne by (simp add: Next_def Let_def last_conv_nth)
      have "findPos i (index i ! 0) = int 0"
        using s d ne by (intro findPos_member) simp_all
      then have p: "Prev i (hd (index i)) = (0, False)"
        using ne by (simp add: Prev_def Let_def hd_conv_nth)
      from n p show ?thesis unfolding mx mn by simp
    qed
    from s d k step ends show ?thesis by blast
  qed
  from reach present absent show ?thesis by blast
qed

theorem Prev_Next_neighbours_witness:
  "index_inv ex_index \<and> index ex_index = [1, 2, 5] \<and>
   Next ex_index 1 = (2, True) \<and> Prev ex_index 2 = (1, True) \<and>
   Next ex_index 2 = (5, True) \<and> Prev ex_index 5 = (2, True) \<and>
   Next ex_index 5 = (0, False) \<and> Prev ex_index 1 = (0, False) \<and>
   Next ex_index 3 = (0, False) \<and> Prev ex_index 3 = (0, False) \<and>
   Next ex_index 4 = (0, False) \<and> Prev ex_index 4 = (0, False)"
proof -
  note T = Prev_Next_neighbours [where i=ex_index]
  have inv: "index_inv ex_index"
    by code_simp
  have ix: "index ex_index = [1, 2, 5]"
    by code_simp
  have len: "(0::nat) + 1 < length (index ex_index)" "(1::nat) + 1 < length (index ex_index)"
    by code_simp+
  have ne: "index ex_index \<noteq> []"
    by code_simp
  have mm: "Max (keys ex_index) = 5" "Min (keys ex_index) = 1"
    by code_simp+
  have ab: "3 \<notin> set (index ex_index)" "4 \<notin> set (index ex_index)"
    by code_simp+
  from T inv len(1)
  have "Next ex_index (index ex_index ! 0) = (index ex_index ! (0 + 1), True)"
    and "Prev ex_index (index ex_index ! (0 + 1)) = (index ex_index ! 0, True)"
    by blast+
  then have a: "Next ex_index 1 = (2, True)" "Prev ex_index 2 = (1, True)"
    unfolding ix by simp_all
  from T inv len(2)
  have "Next ex_index (index ex_index ! 1) = (index ex_index ! (1 + 1), True)"
    and "Prev ex_index (index ex_index ! (1 + 1)) = (index ex_index ! 1, True)"
    by blast+
  then have b: "Next ex_index 2 = (5, True)" "Prev ex_index 5 = (2, True)"
    unfolding ix by simp_all
  from T inv ne
  have "Next ex_index (Max (keys ex_index)) = (0, False)"
    and "Prev ex_index (Min (keys ex_index)) = (0, False)"
    by blast+
  then have c: "Next ex_index 5 = (0, False)" "Prev ex_index 1 = (0, False)"
    unfolding mm by simp_all
  from T ab
  have d: "Next ex_index 3 = (0, False)" "Prev ex_index 3 = (0, False)"
    "Next ex_index 4 = (0, False)" "Prev ex_index 4 = (0, False)"
    by blast+
  from inv ix a b c d show ?thesis by simp
qed

end
